theory Spec2Isabelle
  imports Main "HOL-Library.Word" "HOL-Library.AList"
begin

section \<open>Data model\<close>

text \<open>
  The configuration aggregator of \<^verbatim>\<open>config\<close> (second part of
  \<^verbatim>\<open>src/source/consul/consul.go\<close>) is embedded with explicit state passing.
  Pointers to watcher objects are addresses into an explicit store, channels are
  their buffer contents (or, for the signal channels that are only ever closed, a
  flag), the mutex is a flag, and goroutines started with \<^verbatim>\<open>go\<close> are entries
  of a task pool. Everything the packages \<^verbatim>\<open>reader\<close> and \<^verbatim>\<open>source\<close> provide is a
  parameter: an interface value is the record of its methods.
\<close>

type_synonym byte = "8 word"

text \<open>\<^verbatim>\<open>errors.New(msg)\<close> and every other error value: the message.\<close>

datatype error = Error string

text \<open>
  \<^verbatim>\<open>source.ChangeSet\<close>, with the fields the code reads and writes. A nil byte
  slice is \<open>None\<close>.
\<close>

record ChangeSet =
  Data :: "byte list option"
  Checksum :: string
  Timestamp :: nat
  Source :: string

text \<open>
  The interface \<^verbatim>\<open>Value\<close>: of its methods the code calls only \<^verbatim>\<open>Bytes()\<close>.
  The interface \<^verbatim>\<open>reader.Values\<close>: \<^verbatim>\<open>Get(path...)\<close> and \<^verbatim>\<open>Bytes()\<close>.
\<close>

record Value =
  Bytes :: "byte list"

record Values =
  Values_Get :: "string list \<Rightarrow> Value"
  Values_Bytes :: "byte list"

text \<open>
  The interface \<^verbatim>\<open>reader.Reader\<close>. \<^verbatim>\<open>Parse\<close> returns \<open>Inl\<close> when its error is
  not nil (the code never looks at the set then). \<^verbatim>\<open>Values\<close> returns both
  results, because the code assigns the first one even when it drops the second.
\<close>

record Reader =
  Parse :: "ChangeSet option list \<Rightarrow> error + ChangeSet option"
  Values :: "ChangeSet option \<Rightarrow> Values option \<times> error option"

text \<open>
  The interface \<^verbatim>\<open>source.Source\<close>: the name and what the next call of
  \<^verbatim>\<open>Read()\<close> returns (both results). What \<^verbatim>\<open>Watch()\<close> returns over time is
  given to the ingestion loop as a script, see below.
\<close>

record Source =
  String :: string
  Read :: "ChangeSet option \<times> error option"

record Options =
  opt_Reader :: Reader
  opt_Source :: "Source list"

text \<open>A buffered channel: its content, oldest first, and its capacity.\<close>

record 'a chan =
  buf :: "'a list"
  cap :: nat

text \<open>
  \<^verbatim>\<open>type watcher struct\<close>. The channel \<^verbatim>\<open>exit\<close> carries no value and is only
  ever closed: \<open>w_exit\<close> says whether it has been.
\<close>

record watcher =
  w_exit :: bool
  w_path :: "string list"
  w_value :: Value
  w_updates :: "Value chan"

text \<open>
  Goroutines that the code starts and that have not finished:
  \<^verbatim>\<open>go c.watch(idx, s)\<close> and the anonymous function of \<^verbatim>\<open>Watch\<close> that waits
  for \<^verbatim>\<open>w.exit\<close> and deletes the watcher \<open>id\<close> (at address \<open>a\<close>) from the registry.
\<close>

datatype task = WatchLoop nat Source | Remover nat int

text \<open>
  \<^verbatim>\<open>type config struct\<close>. \<open>c_exit\<close>: the channel \<^verbatim>\<open>exit\<close> has been closed.
  \<open>c_locked\<close>: the embedded \<^verbatim>\<open>sync.RWMutex\<close> is held for writing.
  \<open>c_watchers\<close>: the map \<^verbatim>\<open>watchers\<close>, from id to the address of the watcher.
  \<open>c_heap\<close>: the watcher objects allocated so far, by address.
  \<open>c_tasks\<close>: the goroutines started and not finished.
\<close>

record config =
  c_exit :: bool
  c_opts :: Options
  c_locked :: bool
  c_set :: "ChangeSet option"
  c_vals :: "Values option"
  c_sets :: "ChangeSet option list"
  c_sources :: "Source list"
  c_idx :: int
  c_watchers :: "(int \<times> nat) list"
  c_heap :: "watcher list"
  c_tasks :: "task list"

text \<open>
  What a call does in a given state: it returns, it cannot go on (it waits for
  the mutex or for a channel), or it panics. Every function releases the mutex
  only after it has locked it itself, so a call that waits for a mutex left
  locked by a function that has returned waits for ever.
\<close>

datatype 'a outcome = Done 'a | Blocked | Panic

section \<open>The watcher\<close>

text \<open>
  \<^verbatim>\<open>func (w *watcher) Stop() error\<close>: close \<^verbatim>\<open>exit\<close> unless it is closed
  already; the result is always nil.
\<close>

definition Stop :: "watcher \<Rightarrow> watcher \<times> error option" where
  "Stop w = (if w_exit w then (w, None) else (w\<lparr>w_exit := True\<rparr>, None))"

text \<open>
  What one call of \<^verbatim>\<open>Next()\<close> does: it returns its two results, or it waits in
  the \<^verbatim>\<open>select\<close> with neither channel ready.
\<close>

datatype next_result = Returned "Value option" "error option" | Waits

text \<open>
  \<^verbatim>\<open>func (w *watcher) Next() (Value, error)\<close>. A \<^verbatim>\<open>select\<close> with both cases
  ready takes either: \<open>pick i\<close> says whether the \<open>i\<close>-th \<^verbatim>\<open>select\<close> of the call
  takes \<^verbatim>\<open>case <-w.exit\<close> then.
\<close>

function Next :: "(nat \<Rightarrow> bool) \<Rightarrow> nat \<Rightarrow> watcher \<Rightarrow> watcher \<times> next_result" where
  "Next pick i w =
     (case buf (w_updates w) of
        [] \<Rightarrow> if w_exit w then (w, Returned None (Some (Error ''watcher stopped'')))
              else (w, Waits)
      | v # rest \<Rightarrow>
          if w_exit w \<and> pick i then (w, Returned None (Some (Error ''watcher stopped'')))
          else if Bytes (w_value w) = Bytes v
            then Next pick (Suc i) (w\<lparr>w_updates := (w_updates w)\<lparr>buf := rest\<rparr>\<rparr>)
          else (w\<lparr>w_updates := (w_updates w)\<lparr>buf := rest\<rparr>, w_value := v\<rparr>,
                Returned (Some v) None))"
  by pat_completeness auto
termination
  by (relation "measure (\<lambda>(pick, i, w). length (buf (w_updates w)))") auto

declare Next.simps [simp del]

section \<open>The mutex and the channels\<close>

text \<open>
  \<^verbatim>\<open>c.Lock()\<close> returns once the mutex is free; \<open>None\<close>: it is held, and the
  caller waits. \<^verbatim>\<open>c.RLock()\<close> waits in the same states (no function keeps a
  read lock across a return). \<^verbatim>\<open>c.Unlock()\<close> releases it.
\<close>

definition Lock :: "config \<Rightarrow> config option" where
  "Lock c = (if c_locked c then None else Some (c\<lparr>c_locked := True\<rparr>))"

definition Unlock :: "config \<Rightarrow> config" where
  "Unlock c = c\<lparr>c_locked := False\<rparr>"

text \<open>
  \<^verbatim>\<open>select { case ch <- v: default: }\<close>: the send goes through when the
  buffer has room, and is skipped otherwise.
\<close>

definition try_send :: "'a \<Rightarrow> 'a chan \<Rightarrow> 'a chan" where
  "try_send v ch = (if length (buf ch) < cap ch then ch\<lparr>buf := buf ch @ [v]\<rparr> else ch)"

text \<open>Sequencing of calls: the first one that waits or panics ends the caller.\<close>

definition bind :: "'a outcome \<Rightarrow> ('a \<Rightarrow> 'b outcome) \<Rightarrow> 'b outcome" where
  "bind m f = (case m of Done x \<Rightarrow> f x | Blocked \<Rightarrow> Blocked | Panic \<Rightarrow> Panic)"

section \<open>The aggregator\<close>

text \<open>\<^verbatim>\<open>WithSource\<close> and \<^verbatim>\<open>WithReader\<close> of \<^verbatim>\<open>src/options.go\<close>.\<close>

definition WithSource :: "Source \<Rightarrow> Options \<Rightarrow> Options" where
  "WithSource s opt = opt\<lparr>opt_Source := opt_Source opt @ [s]\<rparr>"

definition WithReader :: "Reader \<Rightarrow> Options \<Rightarrow> Options" where
  "WithReader r opt = opt\<lparr>opt_Reader := r\<rparr>"

text \<open>
  \<^verbatim>\<open>func newConfig(opts ...Option) Config\<close>; \<open>jsonReader\<close> is what
  \<^verbatim>\<open>json.NewReader()\<close> returns. One goroutine \<^verbatim>\<open>c.watch(i, s)\<close> is started
  for every source; the slice \<^verbatim>\<open>sets\<close> starts nil.
\<close>

definition newConfig :: "Reader \<Rightarrow> (Options \<Rightarrow> Options) list \<Rightarrow> config" where
  "newConfig jsonReader opts =
     (let options = fold (\<lambda>opt options. opt options) opts
                      \<lparr>opt_Reader = jsonReader, opt_Source = []\<rparr>
      in \<lparr>c_exit = False, c_opts = options, c_locked = False, c_set = None,
          c_vals = None, c_sets = [], c_sources = opt_Source options, c_idx = 0,
          c_watchers = [], c_heap = [],
          c_tasks = map (\<lambda>(i, s). WatchLoop i s) (enumerate 0 (opt_Source options))\<rparr>)"

text \<open>\<^verbatim>\<open>func (c *config) loaded() bool\<close>.\<close>

definition loaded :: "config \<Rightarrow> bool outcome" where
  "loaded c = (if c_locked c then Blocked else Done (c_vals c \<noteq> None))"

text \<open>
  \<^verbatim>\<open>func (c *config) update()\<close>. The watchers are collected under the read
  lock; then each gets \<^verbatim>\<open>c.vals.Get(w.path...)\<close> by a send that does not wait.
  With \<^verbatim>\<open>c.vals\<close> nil the first such call panics.
\<close>

definition update :: "config \<Rightarrow> config outcome" where
  "update c =
     (if c_locked c then Blocked
      else let watchers = map snd (c_watchers c) in
        if watchers = [] then Done c
        else case c_vals c of
          None \<Rightarrow> Panic
        | Some vals \<Rightarrow>
            Done (c\<lparr>c_heap :=
              fold (\<lambda>a h. h[a := (h ! a)\<lparr>w_updates :=
                      try_send (Values_Get vals (w_path (h ! a))) (w_updates (h ! a))\<rparr>])
                watchers (c_heap c)\<rparr>))"

text \<open>
  The first loop of \<^verbatim>\<open>sync\<close>: every source is read, and the sets of those
  whose \<^verbatim>\<open>Read()\<close> gave no error are collected in order.
\<close>

fun sync_reads :: "Source list \<Rightarrow> ChangeSet option list" where
  "sync_reads [] = []"
| "sync_reads (source # rest) =
     (case Read source of
        (ch, None) \<Rightarrow> ch # sync_reads rest
      | (ch, Some err) \<Rightarrow> sync_reads rest)"

text \<open>
  \<^verbatim>\<open>func (c *config) sync()\<close>. When \<^verbatim>\<open>Parse\<close> fails the function returns
  with the mutex still held: there is no \<^verbatim>\<open>c.Unlock()\<close> on that path.
\<close>

definition sync :: "config \<Rightarrow> config outcome" where
  "sync c =
     (case Lock c of
        None \<Rightarrow> Blocked
      | Some c1 \<Rightarrow>
          (case Parse (opt_Reader (c_opts c1)) (sync_reads (c_sources c1)) of
             Inl err \<Rightarrow> Done c1
           | Inr merged \<Rightarrow>
               update (Unlock (c1\<lparr>c_vals := fst (Values (opt_Reader (c_opts c1)) merged),
                                  c_set := merged\<rparr>))))"

text \<open>\<^verbatim>\<open>func (c *config) reload()\<close>: here the failing path unlocks.\<close>

definition reload :: "config \<Rightarrow> config outcome" where
  "reload c =
     (case Lock c of
        None \<Rightarrow> Blocked
      | Some c1 \<Rightarrow>
          (case Parse (opt_Reader (c_opts c1)) (c_sets c1) of
            Inl err \<Rightarrow> Done (Unlock c1)
          | Inr merged \<Rightarrow>
              update (Unlock (c1\<lparr>c_vals := fst (Values (opt_Reader (c_opts c1)) merged),
                                 c_set := merged\<rparr>))))"

text \<open>\<^verbatim>\<open>func (c *config) Close() error\<close>.\<close>

definition Close :: "config \<Rightarrow> config \<times> error option" where
  "Close c = (if c_exit c then (c, None) else (c\<lparr>c_exit := True\<rparr>, None))"

text \<open>
  The part of \<^verbatim>\<open>Get\<close> that computes \<open>v\<close> from \<^verbatim>\<open>ch := c.set\<close> when
  \<^verbatim>\<open>c.vals\<close> is nil: \<^verbatim>\<open>Values(ch)\<close>, and on an error a second call, on
  the document \<^verbatim>\<open>{}\<close> when \<open>ch\<close> or its data is nil. \<open>now\<close> is what
  \<^verbatim>\<open>time.Now()\<close> returns.
\<close>

definition Get_values :: "nat \<Rightarrow> Reader \<Rightarrow> ChangeSet option \<Rightarrow> Values option" where
  "Get_values now r ch =
     (case Values r ch of
        (v, None) \<Rightarrow> v
      | (v, Some err) \<Rightarrow>
          (if (case ch of None \<Rightarrow> True | Some x \<Rightarrow> Data x = None)
           then fst (Values r (Some \<lparr>Data = Some [0x7B, 0x7D], Checksum = [],
                                     Timestamp = now, Source = ''config''\<rparr>))
           else fst (Values r ch)))"

text \<open>
  \<^verbatim>\<open>func (c *config) Get(path ...string) Value\<close>. \<open>newValue\<close> is what
  \<^verbatim>\<open>newValue()\<close> returns. The
  deferred \<^verbatim>\<open>c.Unlock()\<close> runs at each return after \<^verbatim>\<open>c.Lock()\<close>.
\<close>

definition Get :: "Value \<Rightarrow> nat \<Rightarrow> config \<Rightarrow> string list \<Rightarrow> (config \<times> Value) outcome" where
  "Get newValue now c path =
     bind (loaded c) (\<lambda>l.
     bind (if l then Done c else sync c) (\<lambda>c1.
       case Lock c1 of
         None \<Rightarrow> Blocked
       | Some c2 \<Rightarrow>
           (case c_vals c2 of
              Some vals \<Rightarrow> Done (Unlock c2, Values_Get vals path)
            | None \<Rightarrow>
                (let c3 = c2\<lparr>c_vals := Get_values now (opt_Reader (c_opts c2)) (c_set c2)\<rparr>
                 in (case c_vals c3 of
                       Some vals \<Rightarrow> Done (Unlock c3, Values_Get vals path)
                     | None \<Rightarrow> Done (Unlock c3, newValue))))))"

text \<open>\<^verbatim>\<open>func (c *config) Bytes() []byte\<close>.\<close>

definition config_Bytes :: "config \<Rightarrow> (config \<times> byte list) outcome" where
  "config_Bytes c =
     bind (loaded c) (\<lambda>l.
     bind (if l then Done c else sync c) (\<lambda>c1.
       case Lock c1 of
         None \<Rightarrow> Blocked
       | Some c2 \<Rightarrow>
           (case c_vals c2 of
              None \<Rightarrow> Done (Unlock c2, [])
            | Some vals \<Rightarrow> Done (Unlock c2, Values_Bytes vals))))"

text \<open>
  \<^verbatim>\<open>func (c *config) Load(sources ...source.Source) error\<close>: the loop over the
  sources, then \<^verbatim>\<open>c.reload()\<close>; the result is the constant nil.
\<close>

fun Load_sources :: "config \<Rightarrow> Source list \<Rightarrow> config outcome" where
  "Load_sources c [] = Done c"
| "Load_sources c (source # rest) =
     (case Read source of
        (snapshot, err) \<Rightarrow>
          (case Lock c of
             None \<Rightarrow> Blocked
           | Some c1 \<Rightarrow>
               (let c2 = c1\<lparr>c_sources := c_sources c1 @ [source]\<rparr>;
                    c3 = c2\<lparr>c_sets := c_sets c2 @ [snapshot]\<rparr>;
                    idx = length (c_sets c3) - 1;
                    c4 = Unlock c3
                in Load_sources (c4\<lparr>c_tasks := c_tasks c4 @ [WatchLoop idx source]\<rparr>) rest)))"

definition Load :: "config \<Rightarrow> Source list \<Rightarrow> (config \<times> error option) outcome" where
  "Load c sources =
     bind (Load_sources c sources) (\<lambda>c1.
     bind (reload c1) (\<lambda>c2. Done (c2, None)))"

text \<open>
  \<^verbatim>\<open>func (c *config) Watch(path ...string) (Watcher, error)\<close>. The new watcher
  is allocated at the next free address, which is returned with the nil error.
\<close>

definition Watch :: "Value \<Rightarrow> nat \<Rightarrow> config \<Rightarrow> string list \<Rightarrow> (config \<times> nat \<times> error option) outcome" where
  "Watch newValue now c path =
     bind (Get newValue now c path) (\<lambda>(c1, v).
       case Lock c1 of
         None \<Rightarrow> Blocked
       | Some c2 \<Rightarrow>
           let w = \<lparr>w_exit = False, w_path = path, w_value = v,
                    w_updates = \<lparr>buf = [], cap = 1\<rparr>\<rparr>;
               a = length (c_heap c2);
               c3 = c2\<lparr>c_heap := c_heap c2 @ [w]\<rparr>;
               wid = c_idx c3;
               c4 = c3\<lparr>c_watchers := AList.update wid a (c_watchers c3)\<rparr>;
               c5 = c4\<lparr>c_idx := c_idx c4 + 1\<rparr>;
               c6 = Unlock c5
           in Done (c6\<lparr>c_tasks := c_tasks c6 @ [Remover a wid]\<rparr>, a, None))"

text \<open>
  The goroutine that \<^verbatim>\<open>Watch\<close> starts: it waits until \<^verbatim>\<open>w.exit\<close> is closed,
  deletes the id from the registry under the lock, and is finished.
\<close>

definition remover :: "nat \<Rightarrow> int \<Rightarrow> config \<Rightarrow> config outcome" where
  "remover a wid c =
     (if w_exit (c_heap c ! a) then
        (case Lock c of
           None \<Rightarrow> Blocked
         | Some c1 \<Rightarrow>
             let c2 = Unlock (c1\<lparr>c_watchers := AList.delete wid (c_watchers c1)\<rparr>)
             in Done (c2\<lparr>c_tasks := remove1 (Remover a wid) (c_tasks c2)\<rparr>))
      else Blocked)"

text \<open>\<^verbatim>\<open>Stop\<close> and \<^verbatim>\<open>Next\<close> called through the pointer \<open>a\<close>.\<close>

definition Stop_at :: "nat \<Rightarrow> config \<Rightarrow> config \<times> error option" where
  "Stop_at a c =
     (let (w, err) = Stop (c_heap c ! a) in (c\<lparr>c_heap := (c_heap c)[a := w]\<rparr>, err))"

definition Next_at :: "(nat \<Rightarrow> bool) \<Rightarrow> nat \<Rightarrow> config \<Rightarrow> config \<times> next_result" where
  "Next_at pick a c =
     (let (w, r) = Next pick 0 (c_heap c ! a) in (c\<lparr>c_heap := (c_heap c)[a := w]\<rparr>, r))"

section \<open>The ingestion loop\<close>

text \<open>
  What the source does is a script. A stream handle is the list of the results
  of its successive \<^verbatim>\<open>Next()\<close> calls; when the list ends, the next call has not
  returned yet. A source is the list of the results of its successive
  \<^verbatim>\<open>Watch()\<close> calls: an error, or a stream handle.
\<close>

datatype attempt = WatchFails error | WatchOpens "(ChangeSet option \<times> error option) list"

text \<open>
  How the inner function \<^verbatim>\<open>watch := func(idx int, s source.Watcher) error\<close>
  ends: it returns an error (it never returns nil), it waits in \<^verbatim>\<open>s.Next()\<close>, it
  waits for the mutex, or it panics.
\<close>

datatype pull = Failed error | Pulling | LockWait | Crash

fun watch_inner :: "nat \<Rightarrow> (ChangeSet option \<times> error option) list \<Rightarrow> config \<Rightarrow> config \<times> pull" where
  "watch_inner idx [] c = (c, Pulling)"
| "watch_inner idx ((cs, Some err) # rest) c = (c, Failed err)"
| "watch_inner idx ((cs, None) # rest) c =
     (case Lock c of
        None \<Rightarrow> (c, LockWait)
      | Some c1 \<Rightarrow>
          if length (c_sets c1) \<le> idx then (c1, Crash)
          else
            let c2 = c1\<lparr>c_sets := (c_sets c1)[idx := cs]\<rparr> in
            (case Parse (opt_Reader (c_opts c2)) (c_sets c2) of
               Inl err \<Rightarrow> (c2, Failed err)
             | Inr merged \<Rightarrow>
                 let c3 = Unlock (c2\<lparr>c_vals := fst (Values (opt_Reader (c_opts c2)) merged),
                                      c_set := merged\<rparr>)
                 in (case update c3 of
                       Done c4 \<Rightarrow> watch_inner idx rest c4
                     | Blocked \<Rightarrow> (c3, LockWait)
                     | Panic \<Rightarrow> (c3, Crash))))"

text \<open>
  How far the goroutine \<^verbatim>\<open>c.watch(idx, s)\<close> gets on a script: it has returned,
  it waits in \<^verbatim>\<open>s.Next()\<close>, it is about to call \<^verbatim>\<open>s.Watch()\<close> again (the
  script has no further result), it waits for the mutex, or it has panicked.
\<close>

datatype status = Exited | InNext | Retrying | Deadlocked | Panicked

text \<open>
  The \<^verbatim>\<open>for\<close> loop of \<^verbatim>\<open>watch\<close>. A failed \<^verbatim>\<open>s.Watch()\<close> sleeps and
  continues with the next round. After the inner function has returned, the loop
  sleeps, closes \<^verbatim>\<open>done\<close> and looks at \<^verbatim>\<open>c.exit\<close>. The goroutine that
  calls \<^verbatim>\<open>w.Stop()\<close> once \<^verbatim>\<open>done\<close> or \<^verbatim>\<open>c.exit\<close> is closed acts on the
  stream handle only: the error that \<^verbatim>\<open>s.Next()\<close> returns after it is one
  more result in the script of the handle.
\<close>

fun watch_loop :: "nat \<Rightarrow> attempt list \<Rightarrow> config \<Rightarrow> config \<times> status" where
  "watch_loop idx [] c = (c, Retrying)"
| "watch_loop idx (WatchFails err # script) c = watch_loop idx script c"
| "watch_loop idx (WatchOpens stream # script) c =
     (case watch_inner idx stream c of
        (c1, Failed err) \<Rightarrow> if c_exit c1 then (c1, Exited) else watch_loop idx script c1
      | (c1, Pulling) \<Rightarrow> (c1, InNext)
      | (c1, LockWait) \<Rightarrow> (c1, Deadlocked)
      | (c1, Crash) \<Rightarrow> (c1, Panicked))"

text \<open>
  \<^verbatim>\<open>func (c *config) watch(idx int, s source.Source)\<close>: it first appends a nil
  slot to \<^verbatim>\<open>c.sets\<close>, then loops. A goroutine that returns leaves the pool.
\<close>

definition watch :: "nat \<Rightarrow> Source \<Rightarrow> attempt list \<Rightarrow> config \<Rightarrow> config \<times> status" where
  "watch idx s script c =
     (case Lock c of
        None \<Rightarrow> (c, Deadlocked)
      | Some c1 \<Rightarrow>
          (case watch_loop idx script (Unlock (c1\<lparr>c_sets := c_sets c1 @ [None]\<rparr>)) of
             (c2, Exited) \<Rightarrow> (c2\<lparr>c_tasks := remove1 (WatchLoop idx s) (c_tasks c2)\<rparr>, Exited)
           | (c2, st) \<Rightarrow> (c2, st)))"

section \<open>Concrete inputs\<close>

text \<open>
  A small reader, used where a statement is evaluated on a concrete input. A
  document is a byte string of key and value bytes in turn; one of odd length is
  malformed. \<open>kv_Parse\<close> skips nil sets and nil data and joins the documents in
  slot order; \<open>kv_Values\<close> looks a one-byte key up, the last entry winning.
\<close>

fun pairs :: "byte list \<Rightarrow> (byte \<times> byte) list" where
  "pairs (k # v # rest) = (k, v) # pairs rest"
| "pairs rest = []"

definition kv_Parse :: "ChangeSet option list \<Rightarrow> error + ChangeSet option" where
  "kv_Parse sets =
     (let docs = concat (map (\<lambda>cs. case cs of None \<Rightarrow> []
                               | Some x \<Rightarrow> (case Data x of None \<Rightarrow> [] | Some d \<Rightarrow> [d])) sets)
      in if filter (\<lambda>d. odd (length d)) docs = []
         then Inr (Some \<lparr>Data = Some (concat docs), Checksum = [], Timestamp = 0,
                         Source = ''kv''\<rparr>)
         else Inl (Error ''malformed''))"

definition kv_Get :: "byte list \<Rightarrow> string list \<Rightarrow> Value" where
  "kv_Get d path =
     (case path of
        [[k]] \<Rightarrow> (case map_of (rev (pairs d)) (of_char k) of
                    None \<Rightarrow> \<lparr>Bytes = []\<rparr>
                  | Some v \<Rightarrow> \<lparr>Bytes = [v]\<rparr>)
      | other \<Rightarrow> \<lparr>Bytes = []\<rparr>)"

definition kv_Values :: "ChangeSet option \<Rightarrow> Values option \<times> error option" where
  "kv_Values cs =
     (case cs of
        None \<Rightarrow> (None, Some (Error ''no set''))
      | Some x \<Rightarrow>
          (case Data x of
             None \<Rightarrow> (None, Some (Error ''no data''))
           | Some d \<Rightarrow> (Some \<lparr>Values_Get = kv_Get d, Values_Bytes = d\<rparr>, None)))"

definition kv_Reader :: Reader where
  "kv_Reader = \<lparr>Parse = kv_Parse, Values = kv_Values\<rparr>"

text \<open>
  The change set of a document, a source whose \<^verbatim>\<open>Read()\<close> returns it, and
  a source whose \<^verbatim>\<open>Read()\<close> fails.
\<close>

definition doc :: "byte list \<Rightarrow> ChangeSet" where
  "doc d = \<lparr>Data = Some d, Checksum = [], Timestamp = 0, Source = ''memory''\<rparr>"

definition mem_Source :: "byte list \<Rightarrow> Source" where
  "mem_Source d = \<lparr>String = ''memory'', Read = (Some (doc d), None)\<rparr>"

definition down_Source :: Source where
  "down_Source = \<lparr>String = ''down'', Read = (None, Some (Error ''source not found''))\<rparr>"

text \<open>A one-byte value, and a watcher on the path \<open>a\<close> with a buffer of capacity one.\<close>

definition val :: "byte \<Rightarrow> Value" where
  "val b = \<lparr>Bytes = [b]\<rparr>"

definition a_watcher :: "bool \<Rightarrow> Value \<Rightarrow> Value list \<Rightarrow> watcher" where
  "a_watcher closed v q =
     \<lparr>w_exit = closed, w_path = [''a''], w_value = v, w_updates = \<lparr>buf = q, cap = 1\<rparr>\<rparr>"

text \<open>
  Three states of an aggregator with the source \<open>{a: 1}\<close>: after the ingestion
  loop has stored and merged the first delivery; after \<^verbatim>\<open>Watch("a")\<close> on that;
  and after the delivery \<open>{a: 2}\<close> has been merged and fanned out to the watcher.
\<close>

definition one_slot :: config where
  "one_slot = fst (watch 0 (mem_Source [0x61, 1]) [WatchOpens [(Some (doc [0x61, 1]), None)]]
                     (newConfig kv_Reader [WithSource (mem_Source [0x61, 1])]))"

definition watched :: config where
  "watched = (case Watch (val 0) 0 one_slot [''a''] of
                Done (c1, a, err) \<Rightarrow> c1 | Blocked \<Rightarrow> one_slot | Panic \<Rightarrow> one_slot)"

definition delivered :: config where
  "delivered = fst (watch_inner 0 [(Some (doc [0x61, 2]), None)] watched)"



section \<open>Properties of the watcher\<close>

lemma Next_value:
  "Next pick i w = (w', r) \<Longrightarrow>
     (case r of Returned (Some v) e \<Rightarrow> Bytes v \<noteq> Bytes (w_value w) \<and> w_value w' = v \<and> e = None
      | _ \<Rightarrow> w_value w' = w_value w)"
proof (induction pick i w rule: Next.induct)
  case (1 pick i w)
  show ?case
  proof (cases "buf (w_updates w)")
    case Nil
    with "1.prems" show ?thesis
      by (auto simp: Next.simps [of pick i w] split: if_splits)
  next
    case (Cons v rest)
    show ?thesis
    proof (cases "w_exit w \<and> pick i")
      case True
      with Cons "1.prems" show ?thesis
        by (auto simp: Next.simps [of pick i w])
    next
      case stop: False
      show ?thesis
      proof (cases "Bytes (w_value w) = Bytes v")
        case True
        with stop Cons "1.prems"
        have "Next pick (Suc i) (w\<lparr>w_updates := (w_updates w)\<lparr>buf := rest\<rparr>\<rparr>) = (w', r)"
          by (auto simp: Next.simps [of pick i w])
        from "1.IH" [OF Cons stop True this] show ?thesis
          by (simp split: next_result.splits option.splits)
      next
        case False
        with stop Cons "1.prems" show ?thesis
          by (auto simp: Next.simps [of pick i w])
      qed
    qed
  qed
qed

lemma Next_exit_closed:
  "w_exit w \<Longrightarrow> Next pick i w = (w', r) \<Longrightarrow> r \<noteq> Waits \<and> w_exit w'"
proof (induction pick i w arbitrary: w' r rule: Next.induct)
  case (1 pick i w)
  show ?case
  proof (cases "buf (w_updates w)")
    case Nil
    with "1.prems" show ?thesis
      by (auto simp: Next.simps [of pick i w])
  next
    case (Cons v rest)
    show ?thesis
    proof (cases "w_exit w \<and> pick i")
      case True
      with Cons "1.prems" show ?thesis
        by (auto simp: Next.simps [of pick i w])
    next
      case stop: False
      show ?thesis
      proof (cases "Bytes (w_value w) = Bytes v")
        case True
        with stop Cons "1.prems"
        have "Next pick (Suc i) (w\<lparr>w_updates := (w_updates w)\<lparr>buf := rest\<rparr>\<rparr>) = (w', r)"
          by (auto simp: Next.simps [of pick i w])
        from "1.IH" [OF Cons stop True _ this] "1.prems" show ?thesis
          by simp
      next
        case False
        with stop Cons "1.prems" show ?thesis
          by (auto simp: Next.simps [of pick i w])
      qed
    qed
  qed
qed

lemma Next_stopped:
  "w_exit w \<Longrightarrow> buf (w_updates w) = [] \<or> pick i \<Longrightarrow>
     Next pick i w = (w, Returned None (Some (Error ''watcher stopped'')))"
  by (auto simp: Next.simps [of pick i w] split: list.splits)

section \<open>Properties of the aggregator\<close>

lemma fold_update_length:
  "length (fold (\<lambda>a h. h[a := f h a]) ws h) = length h"
  by (induction ws arbitrary: h) simp_all

lemma fold_update_other:
  "a \<notin> set ws \<Longrightarrow> fold (\<lambda>b h. h[b := f (h ! b)]) ws h ! a = h ! a"
  by (induction ws arbitrary: h) auto

lemma fold_update_member:
  "distinct ws \<Longrightarrow> a \<in> set ws \<Longrightarrow> a < length h \<Longrightarrow>
     fold (\<lambda>b h. h[b := f (h ! b)]) ws h ! a = f (h ! a)"
proof (induction ws arbitrary: h)
  case Nil
  then show ?case by simp
next
  case (Cons b ws)
  show ?case
  proof (cases "a = b")
    case True
    with Cons.prems have "a \<notin> set ws" by simp
    from fold_update_other [OF this, of f "h[b := f (h ! b)]"] True Cons.prems show ?thesis
      by simp
  next
    case False
    with Cons.prems Cons.IH [of "h[b := f (h ! b)]"] show ?thesis
      by simp
  qed
qed

lemma unlocked_id: "\<not> c_locked c \<Longrightarrow> c\<lparr>c_locked := False\<rparr> = c"
  by (intro config.equality) simp_all

lemma update_frame:
  assumes "update c = Done c'"
  shows "\<exists>h. c' = c\<lparr>c_heap := h\<rparr> \<and> length h = length (c_heap c)"
proof (cases "c_locked c \<or> map snd (c_watchers c) = []")
  case True
  with assms have "c' = c"
    by (auto simp: update_def Let_def split: if_splits)
  then have "c' = c\<lparr>c_heap := c_heap c\<rparr> \<and> length (c_heap c) = length (c_heap c)"
    by simp
  then show ?thesis ..
next
  case False
  with assms obtain vals where "c_vals c = Some vals"
    by (auto simp: update_def Let_def split: option.splits)
  with False assms show ?thesis
    by (auto simp: update_def Let_def fold_update_length)
qed

lemma update_Done:
  assumes "\<not> c_locked c" and "c_watchers c = [] \<or> c_vals c \<noteq> None"
  shows "\<exists>c'. update c = Done c'"
  using assms by (auto simp: update_def Let_def)

lemma update_at:
  assumes "\<not> c_locked c" and "c_vals c = Some vals"
    and "distinct (map snd (c_watchers c))" and "(wid, a) \<in> set (c_watchers c)"
    and "a < length (c_heap c)"
  shows "\<exists>c'. update c = Done c' \<and>
           c_heap c' ! a = (c_heap c ! a)\<lparr>w_updates :=
             try_send (Values_Get vals (w_path (c_heap c ! a))) (w_updates (c_heap c ! a))\<rparr>"
proof -
  from assms(4) have mem: "a \<in> set (map snd (c_watchers c))"
    by force
  then have "map snd (c_watchers c) \<noteq> []"
    by auto
  with assms(1,2) have "update c = Done (c\<lparr>c_heap :=
      fold (\<lambda>a h. h[a := (\<lambda>w. w\<lparr>w_updates :=
                      try_send (Values_Get vals (w_path w)) (w_updates w)\<rparr>) (h ! a)])
        (map snd (c_watchers c)) (c_heap c)\<rparr>)"
    by (simp add: update_def Let_def)
  with fold_update_member [OF assms(3) mem assms(5)] show ?thesis
    by simp
qed

lemma reload_failure:
  assumes "\<not> c_locked c" and "Parse (opt_Reader (c_opts c)) (c_sets c) = Inl err"
  shows "reload c = Done c"
  using assms by (simp add: reload_def Lock_def Unlock_def)

lemma reload_success:
  assumes "\<not> c_locked c" and "Parse (opt_Reader (c_opts c)) (c_sets c) = Inr merged"
  shows "reload c = update (c\<lparr>c_vals := fst (Values (opt_Reader (c_opts c)) merged),
                               c_set := merged\<rparr>)"
  using assms by (simp add: reload_def Lock_def Unlock_def unlocked_id)

lemma sync_failure_holds_lock:
  assumes "\<not> c_locked c"
    and "Parse (opt_Reader (c_opts c)) (sync_reads (c_sources c)) = Inl err"
  shows "sync c = Done (c\<lparr>c_locked := True\<rparr>)"
  using assms by (simp add: sync_def Lock_def)

lemma Get_after_failed_sync:
  assumes "\<not> c_locked c" and "c_vals c = None"
    and "Parse (opt_Reader (c_opts c)) (sync_reads (c_sources c)) = Inl err"
  shows "Get newValue now c path = Blocked"
  using assms sync_failure_holds_lock [OF assms(1,3)]
  by (simp add: Get_def loaded_def bind_def Lock_def)


lemma Load_sources_Done:
  "\<not> c_locked c \<Longrightarrow>
     Load_sources c srcs =
       Done (c\<lparr>c_sources := c_sources c @ srcs,
               c_sets := c_sets c @ map (\<lambda>s. fst (Read s)) srcs,
               c_tasks := c_tasks c @ map (\<lambda>(i, s). WatchLoop i s)
                            (enumerate (length (c_sets c)) srcs)\<rparr>)"
proof (induction srcs arbitrary: c)
  case Nil
  then show ?case by simp
next
  case (Cons s srcs)
  let ?c = "c\<lparr>c_sources := c_sources c @ [s],
               c_sets := c_sets c @ [fst (Read s)], c_locked := False,
               c_tasks := c_tasks c @ [WatchLoop (length (c_sets c)) s]\<rparr>"
  have step: "Load_sources c (s # srcs) = Load_sources ?c srcs"
    using Cons.prems by (simp add: Lock_def Unlock_def split: prod.splits)
  have "\<not> c_locked ?c" by simp
  from Cons.IH [OF this] step Cons.prems show ?case
    by simp
qed

lemma watch_start_appends:
  "\<not> c_locked c \<Longrightarrow> watch idx s [] c = (c\<lparr>c_sets := c_sets c @ [None]\<rparr>, Retrying)"
  by (simp add: watch_def Lock_def Unlock_def unlocked_id)

lemma watch_loop_fails:
  "watch_loop idx (replicate n (WatchFails err)) c = (c, Retrying)"
  by (induction n) simp_all

lemma watch_inner_failure:
  assumes "\<not> c_locked c" and "idx < length (c_sets c)"
    and "Parse (opt_Reader (c_opts c)) ((c_sets c)[idx := cs]) = Inl err"
  shows "watch_inner idx ((cs, None) # rest) c =
           (c\<lparr>c_locked := True, c_sets := (c_sets c)[idx := cs]\<rparr>, Failed err)"
  using assms by (simp add: Lock_def)

lemma sync_frame:
  assumes "sync c = Done c'"
  shows "length (c_heap c') = length (c_heap c) \<and> c_idx c' = c_idx c \<and>
         c_tasks c' = c_tasks c \<and> c_watchers c' = c_watchers c"
proof (cases "Parse (opt_Reader (c_opts c)) (sync_reads (c_sources c))")
  case (Inl err)
  with assms show ?thesis
    by (auto simp: sync_def Lock_def split: if_splits)
next
  case (Inr merged)
  with assms have "update (Unlock ((c\<lparr>c_locked := True\<rparr>)
      \<lparr>c_vals := fst (Values (opt_Reader (c_opts c)) merged), c_set := merged\<rparr>)) = Done c'"
    by (auto simp: sync_def Lock_def split: if_splits)
  from update_frame [OF this] show ?thesis
    by (auto simp: Unlock_def)
qed

lemma Get_frame:
  assumes "Get newValue now c path = Done (c0, v)"
  shows "\<not> c_locked c0 \<and> length (c_heap c0) = length (c_heap c) \<and> c_idx c0 = c_idx c \<and>
         c_tasks c0 = c_tasks c \<and> c_watchers c0 = c_watchers c"
proof -
  from assms obtain l where l: "loaded c = Done l"
    by (auto simp: Get_def bind_def split: outcome.splits)
  with assms obtain c1 where c1: "(if l then Done c else sync c) = Done c1"
    by (auto simp: Get_def bind_def split: outcome.splits)
  then have f: "length (c_heap c1) = length (c_heap c) \<and> c_idx c1 = c_idx c \<and>
         c_tasks c1 = c_tasks c \<and> c_watchers c1 = c_watchers c"
    using sync_frame [of c c1] by (auto split: if_splits)
  from assms l c1 f show ?thesis
    by (auto simp: Get_def bind_def Lock_def Unlock_def Let_def split: if_splits option.splits)
qed

lemma Watch_Done:
  assumes "Watch newValue now c path = Done (c1, a, e)"
  shows "\<exists>c0 v. Get newValue now c path = Done (c0, v) \<and> a = length (c_heap c0) \<and> e = None \<and>
           c1 = c0\<lparr>c_heap := c_heap c0 @ [\<lparr>w_exit = False, w_path = path, w_value = v,
                                            w_updates = \<lparr>buf = [], cap = 1\<rparr>\<rparr>],
                   c_watchers := AList.update (c_idx c0) a (c_watchers c0),
                   c_idx := c_idx c0 + 1,
                   c_tasks := c_tasks c0 @ [Remover a (c_idx c0)]\<rparr>"
proof -
  from assms obtain c0 v where g: "Get newValue now c path = Done (c0, v)"
    by (auto simp: Watch_def bind_def split: outcome.splits)
  from Get_frame [OF g] have free: "\<not> c_locked c0" by simp
  from assms g free show ?thesis
    by (auto simp: Watch_def bind_def Lock_def Unlock_def Let_def unlocked_id)
qed

lemma Stop_at_twice: "Stop_at a (fst (Stop_at a c)) = (fst (Stop_at a c), None)"
proof (cases "a < length (c_heap c)")
  case True
  then show ?thesis
    by (simp add: Stop_at_def Stop_def)
next
  case False
  then show ?thesis
    by (simp add: Stop_at_def Stop_def list_update_beyond)
qed

lemma one_slot_eq:
  "one_slot = \<lparr>c_exit = False,
                c_opts = \<lparr>opt_Reader = kv_Reader, opt_Source = [mem_Source [0x61, 1]]\<rparr>,
                c_locked = False,
                c_set = Some \<lparr>Data = Some [0x61, 1], Checksum = [], Timestamp = 0, Source = ''kv''\<rparr>,
                c_vals = Some \<lparr>Values_Get = kv_Get [0x61, 1], Values_Bytes = [0x61, 1]\<rparr>,
                c_sets = [Some (doc [0x61, 1])],
                c_sources = [mem_Source [0x61, 1]], c_idx = 0, c_watchers = [], c_heap = [],
                c_tasks = [WatchLoop 0 (mem_Source [0x61, 1])]\<rparr>"
  by (simp add: one_slot_def watch_def newConfig_def WithSource_def Lock_def Unlock_def
      update_def kv_Reader_def kv_Parse_def kv_Values_def doc_def)

lemma Watch_one_slot: "Watch (val 0) 0 one_slot [''a''] = Done (watched, 0, None)"
  by (simp add: watched_def Watch_def Get_def loaded_def bind_def Lock_def Unlock_def one_slot_eq)

lemma watched_eq:
  "watched = one_slot\<lparr>c_heap := [a_watcher False (val 1) []], c_watchers := [(0, 0)],
                        c_idx := 1, c_tasks := c_tasks one_slot @ [Remover 0 0]\<rparr>"
  by (simp add: watched_def Watch_def Get_def loaded_def bind_def Lock_def Unlock_def one_slot_eq
      a_watcher_def val_def kv_Get_def)

lemma delivered_eq:
  "delivered = watched\<lparr>c_sets := [Some (doc [0x61, 2])],
                        c_set := Some \<lparr>Data = Some [0x61, 2], Checksum = [], Timestamp = 0,
                                        Source = ''kv''\<rparr>,
                        c_vals := Some \<lparr>Values_Get = kv_Get [0x61, 2], Values_Bytes = [0x61, 2]\<rparr>,
                        c_heap := [a_watcher False (val 1) [val 2]]\<rparr>"
  by (simp add: delivered_def watched_eq one_slot_eq Lock_def Unlock_def update_def try_send_def
      kv_Reader_def kv_Parse_def kv_Values_def doc_def a_watcher_def val_def kv_Get_def)




lemma closed_id: "w_exit w \<Longrightarrow> w\<lparr>w_exit := True\<rparr> = w"
  by (intro watcher.equality) simp_all

lemma Stop_at_eq:
  "Stop_at a c = (c\<lparr>c_heap := (c_heap c)[a := (c_heap c ! a)\<lparr>w_exit := True\<rparr>]\<rparr>, None)"
  by (simp add: Stop_at_def Stop_def closed_id)

lemma remove1_last_one:
  "count_list xs x = 1 \<Longrightarrow> x \<notin> set (remove1 x xs)"
proof (induction xs)
  case Nil
  then show ?case by simp
next
  case (Cons y xs)
  show ?case
  proof (cases "x = y")
    case True
    with Cons.prems have "count_list xs x = 0" by simp
    with True show ?thesis by (simp add: count_list_0_iff)
  next
    case False
    with Cons show ?thesis by simp
  qed
qed

section \<open>The claims\<close>

text \<open>
  C1, as stated, fails: the delivery is stored in its slot before the merge, and
  a failed merge does not take it out again. From the state with the slot
  \<open>{a: 1}\<close>, the malformed delivery ends the inner function with the error of
  \<^verbatim>\<open>Parse\<close>; the slot array then holds the malformed delivery, and the next
  delivery of that stream handle is not pulled.
\<close>

theorem merge_failure_overwrites_slot:
  "c_sets one_slot = [Some (doc [0x61, 1])] \<and>
   watch_inner 0 [(Some (doc [0x61]), None), (Some (doc [0x61, 2]), None)] one_slot =
     (one_slot\<lparr>c_locked := True, c_sets := [Some (doc [0x61])]\<rparr>, Failed (Error ''malformed'')) \<and>
   c_sets (fst (watch_inner 0 [(Some (doc [0x61]), None), (Some (doc [0x61, 2]), None)] one_slot))
     \<noteq> c_sets one_slot"
  by (simp add: one_slot_eq Lock_def kv_Reader_def kv_Parse_def doc_def)

text \<open>
  C1, amended: when a delivered change set makes \<^verbatim>\<open>Parse\<close> fail, the merged
  set, the value tree and the buffers of the watchers are left as they were (no
  fan-out), the slot of that source holds the failed delivery and the other
  slots are unchanged, and the inner function returns the error of \<^verbatim>\<open>Parse\<close>
  without pulling anything more from that stream handle; the outer loop then
  returns if \<^verbatim>\<open>c.exit\<close> is closed and goes on to the next \<^verbatim>\<open>s.Watch()\<close>
  otherwise.
\<close>

theorem merge_failure_keeps_merged_state:
  assumes "\<not> c_locked c" and "idx < length (c_sets c)"
    and "Parse (opt_Reader (c_opts c)) ((c_sets c)[idx := cs]) = Inl err"
  shows "\<exists>c'. watch_inner idx ((cs, None) # rest) c = (c', Failed err) \<and>
           c_set c' = c_set c \<and> c_vals c' = c_vals c \<and> c_heap c' = c_heap c \<and>
           c_sets c' = (c_sets c)[idx := cs] \<and>
           watch_loop idx (WatchOpens ((cs, None) # rest) # script) c =
             (if c_exit c then (c', Exited) else watch_loop idx script c')"
  using watch_inner_failure [OF assms, of rest] by simp

theorem merge_failure_keeps_merged_state_witness:
  "\<not> c_locked one_slot \<and> 0 < length (c_sets one_slot) \<and>
   Parse (opt_Reader (c_opts one_slot)) ((c_sets one_slot)[0 := Some (doc [0x61])])
     = Inl (Error ''malformed'') \<and>
   (\<exists>c'. watch_inner 0 [(Some (doc [0x61]), None)] one_slot = (c', Failed (Error ''malformed'')) \<and>
         c_set c' = c_set one_slot \<and> c_vals c' = c_vals one_slot \<and>
         c_heap c' = c_heap one_slot \<and> c_sets c' = [Some (doc [0x61])])"
proof -
  have a: "\<not> c_locked one_slot" and b: "0 < length (c_sets one_slot)"
    by (simp_all add: one_slot_eq)
  have p: "Parse (opt_Reader (c_opts one_slot)) ((c_sets one_slot)[0 := Some (doc [0x61])])
             = Inl (Error ''malformed'')"
    by (simp add: one_slot_eq kv_Reader_def kv_Parse_def doc_def)
  have s: "(c_sets one_slot)[0 := Some (doc [0x61])] = [Some (doc [0x61])]"
    by (simp add: one_slot_eq)
  from merge_failure_keeps_merged_state [OF a b p, of "[]" "[]"] a b p s show ?thesis
    by auto
qed

text \<open>
  C2 fails on the code. With one source whose document is malformed, \<^verbatim>\<open>Get\<close>
  finds nothing loaded and calls \<^verbatim>\<open>sync\<close>; \<^verbatim>\<open>Parse\<close> fails and \<^verbatim>\<open>sync\<close>
  returns without \<^verbatim>\<open>c.Unlock()\<close>; the \<^verbatim>\<open>c.Lock()\<close> of \<^verbatim>\<open>Get\<close> then waits for
  the mutex that its own call of \<^verbatim>\<open>sync\<close> has left locked. No value is
  returned. (The lemma \<open>Get_after_failed_sync\<close> has it for every state with
  nothing loaded and a failing bootstrap merge.)
\<close>

theorem Get_blocks_after_failed_sync:
  "Get newValue now (newConfig kv_Reader [WithSource (mem_Source [0x61])]) path = Blocked"
  by (simp add: Get_def newConfig_def WithSource_def mem_Source_def doc_def kv_Reader_def
      kv_Parse_def loaded_def sync_def Lock_def bind_def)

text \<open>
  C3, as stated, fails: after \<^verbatim>\<open>Stop()\<close> the \<^verbatim>\<open>select\<close> of \<^verbatim>\<open>Next()\<close> has
  both cases ready when the buffer still holds an update, and it may take the
  update. In the state where the watcher on \<open>a\<close> has the baseline \<open>1\<close> and the
  fan-out of \<open>{a: 2}\<close> is pending in its buffer, \<^verbatim>\<open>Stop()\<close> returns nil and
  closes \<^verbatim>\<open>exit\<close>, and a \<^verbatim>\<open>Next()\<close> after it whose \<^verbatim>\<open>select\<close> takes the
  update returns \<open>2\<close> and no error.
\<close>

theorem Next_after_Stop_delivers:
  "c_heap delivered = [a_watcher False (val 1) [val 2]] \<and>
   snd (Stop_at 0 delivered) = None \<and>
   w_exit (c_heap (fst (Stop_at 0 delivered)) ! 0) \<and>
   snd (Next_at (\<lambda>i. False) 0 (fst (Stop_at 0 delivered))) = Returned (Some (val 2)) None"
  by (simp add: delivered_eq Stop_at_def Next_at_def a_watcher_def val_def Stop_def Next.simps)

text \<open>
  C3, amended: after \<^verbatim>\<open>Stop()\<close> a call of \<^verbatim>\<open>Next()\<close> never waits, the
  watcher stays stopped, and the call returns the error \<open>watcher stopped\<close>,
  leaving the watcher as it is, whenever the buffer is empty or the \<^verbatim>\<open>select\<close>
  takes the exit case. (A pending update may still be taken instead.)
\<close>

theorem Next_after_Stop:
  "snd (Next pick i (fst (Stop w))) \<noteq> Waits \<and>
   w_exit (fst (Next pick i (fst (Stop w)))) \<and>
   (buf (w_updates w) = [] \<or> pick i \<longrightarrow>
      Next pick i (fst (Stop w)) =
        (fst (Stop w), Returned None (Some (Error ''watcher stopped''))))"
proof -
  have ex: "w_exit (fst (Stop w))"
    and b: "buf (w_updates (fst (Stop w))) = buf (w_updates w)"
    by (simp_all add: Stop_def)
  obtain w' r where n: "Next pick i (fst (Stop w)) = (w', r)"
    by (cases "Next pick i (fst (Stop w))")
  from Next_exit_closed [OF ex n] n Next_stopped [OF ex, of pick i] b show ?thesis
    by auto
qed

theorem Next_after_Stop_witness:
  "buf (w_updates (a_watcher False (val 1) [])) = [] \<and>
   Next (\<lambda>i. False) 0 (fst (Stop (a_watcher False (val 1) []))) =
     (a_watcher True (val 1) [], Returned None (Some (Error ''watcher stopped'')))"
proof -
  have e: "buf (w_updates (a_watcher False (val 1) [])) = []"
    by (simp add: a_watcher_def)
  have s: "fst (Stop (a_watcher False (val 1) [])) = a_watcher True (val 1) []"
    by (simp add: a_watcher_def Stop_def)
  from Next_after_Stop [of "\<lambda>i. False" 0 "a_watcher False (val 1) []"] e s show ?thesis
    by simp
qed

text \<open>
  C4 fails on the code. \<^verbatim>\<open>Load\<close> appends the source and its slot and starts
  \<^verbatim>\<open>c.watch(idx, source)\<close>, whose first statement appends one more (nil) slot:
  from an aggregator without sources, \<^verbatim>\<open>Load\<close> of one source and the start of
  its ingestion loop leave one source and two slots. (At construction the slice
  of slots starts nil and that statement gives each source its one slot, see
  \<open>watch_start_appends\<close>.)
\<close>

theorem Load_then_watch_two_slots:
  "(case Load (newConfig kv_Reader []) [mem_Source [0x64, 5]] of
      Done (c1, err) \<Rightarrow>
        (c_tasks c1, length (c_sources c1), length (c_sets c1),
         length (c_sources (fst (watch 0 (mem_Source [0x64, 5]) [] c1))),
         c_sets (fst (watch 0 (mem_Source [0x64, 5]) [] c1)))
    | Blocked \<Rightarrow> ([], 0, 0, 0, [])
    | Panic \<Rightarrow> ([], 0, 0, 0, []))
   = ([WatchLoop 0 (mem_Source [0x64, 5])], 1, 1, 1, [Some (doc [0x64, 5]), None])"
  by (simp add: Load_def newConfig_def mem_Source_def doc_def kv_Reader_def kv_Parse_def
      kv_Values_def reload_def update_def watch_def Lock_def Unlock_def bind_def)

text \<open>
  C5 fails on the code. When \<^verbatim>\<open>s.Watch()\<close> fails the loop sleeps and
  continues, and the look at \<^verbatim>\<open>c.exit\<close> at the end of the loop body is skipped:
  after \<^verbatim>\<open>Close\<close>, with a source whose \<^verbatim>\<open>Watch()\<close> keeps failing, the
  goroutine has not returned after any number \<open>n\<close> of rounds.
\<close>

theorem watch_never_exits_when_Watch_fails:
  "snd (watch 0 down_Source (replicate n (WatchFails (Error ''connection refused'')))
          (fst (Close (newConfig kv_Reader [WithSource down_Source])))) = Retrying \<and>
   c_exit (fst (Close (newConfig kv_Reader [WithSource down_Source])))"
  by (simp add: watch_def Lock_def Close_def newConfig_def WithSource_def watch_loop_fails)

text \<open>
  C6: \<^verbatim>\<open>Next()\<close> never surfaces two consecutive byte-identical values. A value
  that a call returns differs in its bytes from \<^verbatim>\<open>w.value\<close> at the start of
  the call (the baseline, or the value returned last) and becomes \<^verbatim>\<open>w.value\<close>.
  Whatever happens to the watcher between two calls that return a value, as
  long as \<^verbatim>\<open>w.value\<close> is what the first call left (only \<^verbatim>\<open>Next()\<close> writes
  it), the second value differs in its bytes from the first. And a value at the
  head of the buffer with the bytes of \<^verbatim>\<open>w.value\<close> is discarded: unless the
  \<^verbatim>\<open>select\<close> takes the exit case, the call goes on as if on the buffer without
  it. A call that waits and goes on after a later send is, for this statement, a
  further call on the watcher as it then is: the loop of \<^verbatim>\<open>Next()\<close> keeps
  nothing between its rounds but the watcher.
\<close>

theorem Next_never_repeats:
  "(Next pick i w = (w1, Returned (Some v1) e1) \<longrightarrow>
      Bytes v1 \<noteq> Bytes (w_value w) \<and> w_value w1 = v1) \<and>
   (Next pick i w = (w1, Returned (Some v1) e1) \<and> w_value w1' = w_value w1 \<and>
    Next pick' j w1' = (w2, Returned (Some v2) e2) \<longrightarrow>
      Bytes v2 \<noteq> Bytes v1) \<and>
   (buf (w_updates w) = d # rest \<and> Bytes d = Bytes (w_value w) \<and> \<not> (w_exit w \<and> pick i) \<longrightarrow>
      Next pick i w = Next pick (Suc i) (w\<lparr>w_updates := (w_updates w)\<lparr>buf := rest\<rparr>\<rparr>))"
proof -
  have first: "Bytes v1 \<noteq> Bytes (w_value w) \<and> w_value w1 = v1"
    if "Next pick i w = (w1, Returned (Some v1) e1)"
    using Next_value [OF that] by simp
  have second: "Bytes v2 \<noteq> Bytes v1"
    if "Next pick i w = (w1, Returned (Some v1) e1)" and "w_value w1' = w_value w1"
      and "Next pick' j w1' = (w2, Returned (Some v2) e2)"
    using Next_value [OF that(1)] Next_value [OF that(3)] that(2) by simp
  have third: "Next pick i w = Next pick (Suc i) (w\<lparr>w_updates := (w_updates w)\<lparr>buf := rest\<rparr>\<rparr>)"
    if "buf (w_updates w) = d # rest" and "Bytes d = Bytes (w_value w)"
      and "\<not> (w_exit w \<and> pick i)"
    using that by (auto simp: Next.simps [of pick i w])
  from first second third show ?thesis
    by blast
qed

theorem Next_never_repeats_witness:
  "Next (\<lambda>i. False) 0 (a_watcher False (val 1) [val 2]) =
     (a_watcher False (val 2) [], Returned (Some (val 2)) None) \<and>
   Next (\<lambda>i. False) 0 (a_watcher False (val 2) [val 3]) =
     (a_watcher False (val 3) [], Returned (Some (val 3)) None) \<and>
   Bytes (val 2) \<noteq> Bytes (val 1) \<and> Bytes (val 3) \<noteq> Bytes (val 2) \<and>
   Next (\<lambda>i. False) 0 (a_watcher False (val 1) [val 1]) = (a_watcher False (val 1) [], Waits)"
proof -
  have a: "Next (\<lambda>i. False) 0 (a_watcher False (val 1) [val 2]) =
             (a_watcher False (val 2) [], Returned (Some (val 2)) None)"
    by (simp add: a_watcher_def val_def Next.simps)
  have b: "Next (\<lambda>i. False) 0 (a_watcher False (val 2) [val 3]) =
             (a_watcher False (val 3) [], Returned (Some (val 3)) None)"
    by (simp add: a_watcher_def val_def Next.simps)
  have v: "w_value (a_watcher False (val 2) [val 3]) = w_value (a_watcher False (val 2) [])"
    "w_value (a_watcher False (val 1) [val 2]) = val 1"
    by (simp_all add: a_watcher_def)
  have d: "buf (w_updates (a_watcher False (val 1) [val 1])) = val 1 # [] \<and>
           Bytes (val 1) = Bytes (w_value (a_watcher False (val 1) [val 1])) \<and>
           \<not> (w_exit (a_watcher False (val 1) [val 1]) \<and> False)"
    by (simp add: a_watcher_def)
  have e: "Next (\<lambda>i. False) (Suc 0)
             ((a_watcher False (val 1) [val 1])
                \<lparr>w_updates := (w_updates (a_watcher False (val 1) [val 1]))\<lparr>buf := []\<rparr>\<rparr>)
           = (a_watcher False (val 1) [], Waits)"
    by (simp add: a_watcher_def Next.simps)
  from Next_never_repeats [of "\<lambda>i. False" 0 "a_watcher False (val 1) [val 2]"
      "a_watcher False (val 2) []" "val 2" None "a_watcher False (val 2) [val 3]"
      "\<lambda>i. False" 0 "a_watcher False (val 3) []" "val 3" None]
    a b v
  have first: "Bytes (val 2) \<noteq> Bytes (val 1) \<and> Bytes (val 3) \<noteq> Bytes (val 2)"
    by simp
  from Next_never_repeats [of "\<lambda>i. False" 0 "a_watcher False (val 1) [val 1]"
      "a_watcher False (val 1) []" "val 1" None "a_watcher False (val 1) []"
      "\<lambda>i. False" 0 "a_watcher False (val 1) []" "val 1" None "val 1" "[]"] d e
  have "Next (\<lambda>i. False) 0 (a_watcher False (val 1) [val 1]) = (a_watcher False (val 1) [], Waits)"
    by simp
  with a b first show ?thesis
    by simp
qed

text \<open>
  C7: the fan-out into a watcher's buffer does not wait and drops on a full
  buffer. \<^verbatim>\<open>Watch\<close> makes the buffer with capacity one and empty. With the
  mutex free and a value tree present, \<^verbatim>\<open>update\<close> returns; for a registered
  watcher whose buffer has capacity one, an occupied buffer (and the whole
  watcher) is left as it is, and an empty one receives the value at the
  watcher's path.
\<close>

theorem fanout_drops_when_full:
  "(Watch newValue now c0 path = Done (c1, a1, e1) \<longrightarrow>
      w_updates (c_heap c1 ! a1) = \<lparr>buf = [], cap = 1\<rparr>) \<and>
   (\<not> c_locked c \<and> c_vals c = Some vals \<and> distinct (map snd (c_watchers c)) \<and>
    (wid, a) \<in> set (c_watchers c) \<and> a < length (c_heap c) \<and>
    cap (w_updates (c_heap c ! a)) = 1 \<longrightarrow>
      (\<exists>c'. update c = Done c' \<and>
         (if buf (w_updates (c_heap c ! a)) = []
          then c_heap c' ! a = (c_heap c ! a)\<lparr>w_updates :=
                 \<lparr>buf = [Values_Get vals (w_path (c_heap c ! a))], cap = 1\<rparr>\<rparr>
          else c_heap c' ! a = c_heap c ! a)))"
proof (intro conjI impI)
  assume "Watch newValue now c0 path = Done (c1, a1, e1)"
  from Watch_Done [OF this] show "w_updates (c_heap c1 ! a1) = \<lparr>buf = [], cap = 1\<rparr>"
    by auto
next
  assume h: "\<not> c_locked c \<and> c_vals c = Some vals \<and> distinct (map snd (c_watchers c)) \<and>
    (wid, a) \<in> set (c_watchers c) \<and> a < length (c_heap c) \<and>
    cap (w_updates (c_heap c ! a)) = 1"
  then have "\<exists>c'. update c = Done c' \<and>
           c_heap c' ! a = (c_heap c ! a)\<lparr>w_updates :=
             try_send (Values_Get vals (w_path (c_heap c ! a))) (w_updates (c_heap c ! a))\<rparr>"
    by (intro update_at [where wid = wid]) simp_all
  then obtain c' where u: "update c = Done c'"
    and n: "c_heap c' ! a = (c_heap c ! a)\<lparr>w_updates :=
             try_send (Values_Get vals (w_path (c_heap c ! a))) (w_updates (c_heap c ! a))\<rparr>"
    by blast
  from h have one: "cap (w_updates (c_heap c ! a)) = 1"
    by simp
  show "\<exists>c'. update c = Done c' \<and>
         (if buf (w_updates (c_heap c ! a)) = []
          then c_heap c' ! a = (c_heap c ! a)\<lparr>w_updates :=
                 \<lparr>buf = [Values_Get vals (w_path (c_heap c ! a))], cap = 1\<rparr>\<rparr>
          else c_heap c' ! a = c_heap c ! a)"
  proof (cases "buf (w_updates (c_heap c ! a)) = []")
    case True
    with n one have "c_heap c' ! a = (c_heap c ! a)\<lparr>w_updates :=
                   \<lparr>buf = [Values_Get vals (w_path (c_heap c ! a))], cap = 1\<rparr>\<rparr>"
      by (simp add: try_send_def)
    with u True show ?thesis by simp
  next
    case False
    then have "\<not> length (buf (w_updates (c_heap c ! a))) < 1"
      by (cases "buf (w_updates (c_heap c ! a))") simp_all
    with n one have "c_heap c' ! a = c_heap c ! a"
      by (simp add: try_send_def)
    with u False show ?thesis by simp
  qed
qed

theorem fanout_drops_when_full_witness:
  "Watch (val 0) 0 one_slot [''a''] = Done (watched, 0, None) \<and>
   w_updates (c_heap watched ! 0) = \<lparr>buf = [], cap = 1\<rparr> \<and>
   c_vals delivered = Some \<lparr>Values_Get = kv_Get [0x61, 2], Values_Bytes = [0x61, 2]\<rparr> \<and>
   c_watchers delivered = [(0, 0)] \<and>
   w_updates (c_heap delivered ! 0) = \<lparr>buf = [val 2], cap = 1\<rparr> \<and>
   (\<exists>c'. update delivered = Done c' \<and> c_heap c' ! 0 = c_heap delivered ! 0)"
proof -
  have h: "\<not> c_locked delivered \<and>
      c_vals delivered = Some \<lparr>Values_Get = kv_Get [0x61, 2], Values_Bytes = [0x61, 2]\<rparr> \<and>
      distinct (map snd (c_watchers delivered)) \<and> (0, 0) \<in> set (c_watchers delivered) \<and>
      0 < length (c_heap delivered) \<and> cap (w_updates (c_heap delivered ! 0)) = 1"
    by (simp add: delivered_eq watched_eq one_slot_eq a_watcher_def)
  have b: "w_updates (c_heap delivered ! 0) = \<lparr>buf = [val 2], cap = 1\<rparr>"
    and r: "c_watchers delivered = [(0, 0)]"
    by (simp_all add: delivered_eq watched_eq a_watcher_def)
  from fanout_drops_when_full [of "val 0" 0 one_slot "[''a'']" watched 0 None delivered
      "\<lparr>Values_Get = kv_Get [0x61, 2], Values_Bytes = [0x61, 2]\<rparr>" 0 0]
    Watch_one_slot h b r
  show ?thesis
    by simp
qed




text \<open>
  C9: \<^verbatim>\<open>Stop()\<close> is idempotent and the watcher is removed from the registry
  exactly once. In every state and for every watcher, \<^verbatim>\<open>Stop()\<close> returns nil
  and changes nothing but \<^verbatim>\<open>exit\<close> of that watcher, which is closed after it
  (the path, the last value, a pending update, the registry and the goroutines
  stay); a second \<^verbatim>\<open>Stop()\<close> returns nil and changes nothing. The goroutine
  that removes the watcher waits as long as \<^verbatim>\<open>exit\<close> is open; after
  \<^verbatim>\<open>Stop()\<close>, with the mutex free, it deletes the id from the registry (the
  other registrations stay), leaves the watchers as they are and is finished:
  where there was one such goroutine there is none left, so the id is deleted
  once, and a further \<^verbatim>\<open>Stop()\<close> changes nothing and starts none.
  \<^verbatim>\<open>Watch\<close> registers the new, unstopped watcher under its id and starts
  that one goroutine.
\<close>

theorem Stop_idempotent:
  "Stop_at a c = (c\<lparr>c_heap := (c_heap c)[a := (c_heap c ! a)\<lparr>w_exit := True\<rparr>]\<rparr>, None) \<and>
   Stop_at a (fst (Stop_at a c)) = (fst (Stop_at a c), None) \<and>
   (\<not> w_exit (c_heap c ! a) \<longrightarrow> remover a wid c = Blocked) \<and>
   (a < length (c_heap c) \<and> \<not> c_locked c \<longrightarrow>
      (\<exists>c3. remover a wid (fst (Stop_at a c)) = Done c3 \<and>
         c_watchers c3 = AList.delete wid (c_watchers c) \<and>
         map_of (c_watchers c3) wid = None \<and>
         (\<forall>k. k \<noteq> wid \<longrightarrow> map_of (c_watchers c3) k = map_of (c_watchers c) k) \<and>
         c_tasks c3 = remove1 (Remover a wid) (c_tasks c) \<and>
         (count_list (c_tasks c) (Remover a wid) = 1 \<longrightarrow> Remover a wid \<notin> set (c_tasks c3)) \<and>
         c_heap c3 = c_heap (fst (Stop_at a c)) \<and>
         Stop_at a c3 = (c3, None))) \<and>
   (Watch newValue now c0 path = Done (c1, a1, e1) \<longrightarrow>
      e1 = None \<and> a1 < length (c_heap c1) \<and> \<not> c_locked c1 \<and> \<not> w_exit (c_heap c1 ! a1) \<and>
      map_of (c_watchers c1) (c_idx c0) = Some a1 \<and>
      c_tasks c1 = c_tasks c0 @ [Remover a1 (c_idx c0)])"
proof -
  define c2 where "c2 = c\<lparr>c_heap := (c_heap c)[a := (c_heap c ! a)\<lparr>w_exit := True\<rparr>]\<rparr>"
  have once: "Stop_at a c = (c2, None)"
    unfolding c2_def by (rule Stop_at_eq)
  then have c2: "fst (Stop_at a c) = c2"
    by simp
  have twice: "Stop_at a c2 = (c2, None)"
    using Stop_at_twice [of a c] c2 by simp
  have waits: "remover a wid c = Blocked" if "\<not> w_exit (c_heap c ! a)"
    using that by (simp add: remover_def)
  have removed: "\<exists>c3. remover a wid c2 = Done c3 \<and>
         c_watchers c3 = AList.delete wid (c_watchers c) \<and>
         map_of (c_watchers c3) wid = None \<and>
         (\<forall>k. k \<noteq> wid \<longrightarrow> map_of (c_watchers c3) k = map_of (c_watchers c) k) \<and>
         c_tasks c3 = remove1 (Remover a wid) (c_tasks c) \<and>
         (count_list (c_tasks c) (Remover a wid) = 1 \<longrightarrow> Remover a wid \<notin> set (c_tasks c3)) \<and>
         c_heap c3 = c_heap c2 \<and>
         Stop_at a c3 = (c3, None)"
    if inside: "a < length (c_heap c)" and free: "\<not> c_locked c"
  proof -
    define c3 where "c3 = c2\<lparr>c_watchers := AList.delete wid (c_watchers c2),
                             c_tasks := remove1 (Remover a wid) (c_tasks c2)\<rparr>"
    have stopped: "w_exit (c_heap c2 ! a)"
      using inside by (simp add: c2_def)
    have free2: "\<not> c_locked c2"
      using free by (simp add: c2_def)
    from stopped free2 have run: "remover a wid c2 = Done c3"
      by (simp add: remover_def Lock_def Unlock_def Let_def unlocked_id c3_def)
    have reg: "c_watchers c3 = AList.delete wid (c_watchers c)"
      and tasks: "c_tasks c3 = remove1 (Remover a wid) (c_tasks c)"
      and heap: "c_heap c3 = c_heap c2"
      by (simp_all add: c3_def c2_def)
    have gone: "map_of (c_watchers c3) wid = None"
      and others: "\<forall>k. k \<noteq> wid \<longrightarrow> map_of (c_watchers c3) k = map_of (c_watchers c) k"
      by (simp_all add: reg delete_conv')
    have last: "count_list (c_tasks c) (Remover a wid) = 1 \<longrightarrow> Remover a wid \<notin> set (c_tasks c3)"
      by (simp add: tasks remove1_last_one)
    have "w_exit (c_heap c3 ! a)"
      using stopped by (simp add: heap)
    then have again: "Stop_at a c3 = (c3, None)"
      by (simp add: Stop_at_def Stop_def)
    from run reg gone others tasks last heap again show ?thesis
      by blast
  qed
  have made: "e1 = None \<and> a1 < length (c_heap c1) \<and> \<not> c_locked c1 \<and> \<not> w_exit (c_heap c1 ! a1) \<and>
      map_of (c_watchers c1) (c_idx c0) = Some a1 \<and>
      c_tasks c1 = c_tasks c0 @ [Remover a1 (c_idx c0)]"
    if w: "Watch newValue now c0 path = Done (c1, a1, e1)"
  proof -
    from Watch_Done [OF w] obtain c v
      where g: "Get newValue now c0 path = Done (c, v)" and a1: "a1 = length (c_heap c)"
        and e1: "e1 = None"
        and c1: "c1 = c\<lparr>c_heap := c_heap c @ [\<lparr>w_exit = False, w_path = path, w_value = v,
                                            w_updates = \<lparr>buf = [], cap = 1\<rparr>\<rparr>],
                   c_watchers := AList.update (c_idx c) a1 (c_watchers c),
                   c_idx := c_idx c + 1,
                   c_tasks := c_tasks c @ [Remover a1 (c_idx c)]\<rparr>"
      by blast
    from Get_frame [OF g] have "\<not> c_locked c" and "c_idx c = c_idx c0" and "c_tasks c = c_tasks c0"
      by simp_all
    then show ?thesis
      by (simp add: c1 a1 e1 update_conv')
  qed
  from removed have removed': "a < length (c_heap c) \<and> \<not> c_locked c \<longrightarrow>
      (\<exists>c3. remover a wid c2 = Done c3 \<and>
         c_watchers c3 = AList.delete wid (c_watchers c) \<and>
         map_of (c_watchers c3) wid = None \<and>
         (\<forall>k. k \<noteq> wid \<longrightarrow> map_of (c_watchers c3) k = map_of (c_watchers c) k) \<and>
         c_tasks c3 = remove1 (Remover a wid) (c_tasks c) \<and>
         (count_list (c_tasks c) (Remover a wid) = 1 \<longrightarrow> Remover a wid \<notin> set (c_tasks c3)) \<and>
         c_heap c3 = c_heap c2 \<and>
         Stop_at a c3 = (c3, None))"
    by (intro impI) (elim conjE)
  from waits have waits': "\<not> w_exit (c_heap c ! a) \<longrightarrow> remover a wid c = Blocked"
    by (intro impI)
  from made have made': "Watch newValue now c0 path = Done (c1, a1, e1) \<longrightarrow>
      e1 = None \<and> a1 < length (c_heap c1) \<and> \<not> c_locked c1 \<and> \<not> w_exit (c_heap c1 ! a1) \<and>
      map_of (c_watchers c1) (c_idx c0) = Some a1 \<and>
      c_tasks c1 = c_tasks c0 @ [Remover a1 (c_idx c0)]"
    by (intro impI)
  show ?thesis
    unfolding c2 using once [unfolded c2_def] twice waits' removed' made'
    by (intro conjI)
qed

theorem Stop_idempotent_witness:
  "c_heap delivered = [a_watcher False (val 1) [val 2]] \<and>
   Stop_at 0 delivered = (delivered\<lparr>c_heap := [a_watcher True (val 1) [val 2]]\<rparr>, None) \<and>
   remover 0 0 delivered = Blocked \<and>
   map_of (c_watchers delivered) 0 = Some 0 \<and>
   count_list (c_tasks delivered) (Remover 0 0) = 1 \<and>
   (\<exists>c3. remover 0 0 (fst (Stop_at 0 delivered)) = Done c3 \<and>
      c_watchers c3 = [] \<and> Remover 0 0 \<notin> set (c_tasks c3) \<and>
      c_heap c3 = [a_watcher True (val 1) [val 2]] \<and> Stop_at 0 c3 = (c3, None)) \<and>
   Watch (val 0) 0 one_slot [''a''] = Done (watched, 0, None) \<and>
   map_of (c_watchers watched) (c_idx one_slot) = Some 0 \<and>
   c_tasks watched = c_tasks one_slot @ [Remover 0 (c_idx one_slot)]"
proof -
  have heap: "c_heap delivered = [a_watcher False (val 1) [val 2]]"
    and reg: "c_watchers delivered = [(0, 0)]"
    and free: "\<not> c_locked delivered"
    and one: "count_list (c_tasks delivered) (Remover 0 0) = 1"
    by (simp_all add: delivered_eq watched_eq one_slot_eq)
  have inside: "0 < length (c_heap delivered)" and running: "\<not> w_exit (c_heap delivered ! 0)"
    by (simp_all add: heap a_watcher_def)
  have closed: "(c_heap delivered)[0 := (c_heap delivered ! 0)\<lparr>w_exit := True\<rparr>]
                  = [a_watcher True (val 1) [val 2]]"
    by (simp add: heap a_watcher_def)
  note t = Stop_idempotent [of 0 delivered 0 "val 0" 0 one_slot "[''a'']" watched 0 None]
  from t closed have s: "Stop_at 0 delivered = (delivered\<lparr>c_heap := [a_watcher True (val 1) [val 2]]\<rparr>, None)"
    by simp
  from t running have b: "remover 0 0 delivered = Blocked"
    by simp
  from t inside free
  obtain c3 where run: "remover 0 0 (fst (Stop_at 0 delivered)) = Done c3"
    and reg3: "c_watchers c3 = AList.delete 0 (c_watchers delivered)"
    and last: "count_list (c_tasks delivered) (Remover 0 0) = 1 \<longrightarrow>
                 Remover 0 0 \<notin> set (c_tasks c3)"
    and heap3: "c_heap c3 = c_heap (fst (Stop_at 0 delivered))"
    and again: "Stop_at 0 c3 = (c3, None)"
    by blast
  have "c_watchers c3 = []"
    by (simp add: reg3 reg AList.delete_eq)
  moreover have "Remover 0 0 \<notin> set (c_tasks c3)"
    using last one by simp
  moreover have "c_heap c3 = [a_watcher True (val 1) [val 2]]"
    by (simp add: heap3 s)
  ultimately
  have r: "\<exists>c3. remover 0 0 (fst (Stop_at 0 delivered)) = Done c3 \<and>
      c_watchers c3 = [] \<and> Remover 0 0 \<notin> set (c_tasks c3) \<and>
      c_heap c3 = [a_watcher True (val 1) [val 2]] \<and> Stop_at 0 c3 = (c3, None)"
    using run again by blast
  from t Watch_one_slot
  have w: "map_of (c_watchers watched) (c_idx one_slot) = Some 0 \<and>
           c_tasks watched = c_tasks one_slot @ [Remover 0 (c_idx one_slot)]"
    by simp
  from heap s b reg one r Watch_one_slot w show ?thesis
    by simp
qed

text \<open>
  C10: \<^verbatim>\<open>Load\<close> always returns a nil error. No call returns an error that
  is not nil; and with the mutex free the call does return (nil) whatever the
  reads give, when the merge fails as well as when it succeeds, unless the merge
  succeeds without a value tree while watchers are registered (then
  \<^verbatim>\<open>update\<close> panics). In the witness one read fails, the other source is
  malformed, the merge fails, a watcher is registered, and \<^verbatim>\<open>Load\<close> returns nil.
\<close>

theorem Load_returns_nil:
  "Load c srcs \<noteq> Done (c', Some e) \<and>
   (\<not> c_locked c \<and>
    (c_watchers c = [] \<or>
     (case Parse (opt_Reader (c_opts c)) (c_sets c @ map (\<lambda>s. fst (Read s)) srcs) of
        Inl err \<Rightarrow> True
      | Inr merged \<Rightarrow> fst (Values (opt_Reader (c_opts c)) merged) \<noteq> None)) \<longrightarrow>
    (\<exists>c''. Load c srcs = Done (c'', None)))"
proof (intro conjI impI)
  show "Load c srcs \<noteq> Done (c', Some e)"
    by (auto simp: Load_def bind_def split: outcome.splits)
next
  let ?c1 = "c\<lparr>c_sources := c_sources c @ srcs,
                c_sets := c_sets c @ map (\<lambda>s. fst (Read s)) srcs,
                c_tasks := c_tasks c @ map (\<lambda>(i, s). WatchLoop i s)
                             (enumerate (length (c_sets c)) srcs)\<rparr>"
  assume h: "\<not> c_locked c \<and>
    (c_watchers c = [] \<or>
     (case Parse (opt_Reader (c_opts c)) (c_sets c @ map (\<lambda>s. fst (Read s)) srcs) of
        Inl err \<Rightarrow> True
      | Inr merged \<Rightarrow> fst (Values (opt_Reader (c_opts c)) merged) \<noteq> None))"
  then have free: "\<not> c_locked c"
    by simp
  have l: "Load_sources c srcs = Done ?c1"
    by (rule Load_sources_Done [OF free])
  have free1: "\<not> c_locked ?c1"
    using free by simp
  show "\<exists>c''. Load c srcs = Done (c'', None)"
  proof (cases "Parse (opt_Reader (c_opts c)) (c_sets c @ map (\<lambda>s. fst (Read s)) srcs)")
    case (Inl err)
    with reload_failure [OF free1, of err] have "reload ?c1 = Done ?c1"
      by simp
    with l show ?thesis
      by (simp add: Load_def bind_def)
  next
    case (Inr merged)
    let ?c = "?c1\<lparr>c_vals := fst (Values (opt_Reader (c_opts c)) merged), c_set := merged\<rparr>"
    from Inr reload_success [OF free1, of merged] have r: "reload ?c1 = update ?c"
      by simp
    have "\<not> c_locked ?c" and "c_watchers ?c = [] \<or> c_vals ?c \<noteq> None"
      using h Inr by auto
    from update_Done [OF this] obtain c2 where "update ?c = Done c2" ..
    with l r show ?thesis
      by (simp add: Load_def bind_def)
  qed
qed

theorem Load_returns_nil_witness:
  "\<not> c_locked watched \<and>
   Read down_Source = (None, Some (Error ''source not found'')) \<and>
   Parse (opt_Reader (c_opts watched))
     (c_sets watched @ map (\<lambda>s. fst (Read s)) [down_Source, mem_Source [0x61]])
     = Inl (Error ''malformed'') \<and>
   (\<exists>c''. Load watched [down_Source, mem_Source [0x61]] = Done (c'', None))"
proof -
  have free: "\<not> c_locked watched"
    by (simp add: watched_eq one_slot_eq)
  have r: "Read down_Source = (None, Some (Error ''source not found''))"
    by (simp add: down_Source_def)
  have p: "Parse (opt_Reader (c_opts watched))
             (c_sets watched @ map (\<lambda>s. fst (Read s)) [down_Source, mem_Source [0x61]])
           = Inl (Error ''malformed'')"
    by (simp add: watched_eq one_slot_eq kv_Reader_def kv_Parse_def down_Source_def
        mem_Source_def doc_def)
  from Load_returns_nil [of watched "[down_Source, mem_Source [0x61]]" watched "Error []"]
    free r p
  show ?thesis
    by simp
qed

end
